theory Spec2Isabelle
  imports Main "HOL-Library.Sublist" "HOL-Library.Multiset"
begin

section \<open>Strings\<close>

text \<open>
  JavaScript strings are modelled as \<^typ>\<open>string\<close>. \<open>toLowerCase\<close> maps the ASCII capital
  letters to their small counterparts and leaves every other character in place, so it keeps
  the length of its argument; the case mapping of other alphabets is not modelled.
\<close>

definition lower_char :: "char \<Rightarrow> char" where
  "lower_char c =
     (case map_of (zip ''ABCDEFGHIJKLMNOPQRSTUVWXYZ'' ''abcdefghijklmnopqrstuvwxyz'') c of
        None \<Rightarrow> c
      | Some d \<Rightarrow> d)"

definition toLowerCase :: "string \<Rightarrow> string" where
  "toLowerCase s = map lower_char s"

text \<open>\<open>s.startsWith(q)\<close> and \<open>s.includes(q)\<close>: \<open>q\<close> occurs at the front of \<open>s\<close>, or somewhere in it.\<close>

definition startsWith :: "string \<Rightarrow> string \<Rightarrow> bool" where
  "startsWith s q = prefix q s"

fun js_includes :: "string \<Rightarrow> string \<Rightarrow> bool" where
  "js_includes [] q = (q = [])"
| "js_includes (c # cs) q = (startsWith (c # cs) q \<or> js_includes cs q)"

text \<open>\<open>segments.join('/')\<close> and \<open>s.split('/')\<close>.\<close>

fun join :: "string list \<Rightarrow> string" where
  "join [] = []"
| "join [s] = s"
| "join (s # t # ss) = s @ ''/'' @ join (t # ss)"

fun split_path :: "string \<Rightarrow> string list" where
  "split_path [] = [[]]"
| "split_path (c # cs) =
     (if c = CHR ''/'' then [] # split_path cs
      else (case split_path cs of [] \<Rightarrow> [[c]] | s # ss \<Rightarrow> (c # s) # ss))"

section \<open>Objects as ordered lists of own properties\<close>

text \<open>
  A plain object is the list of its own properties in the order in which \<open>Object.entries\<close>
  enumerates them: the keys that are array indices (canonical decimal numerals below
  \<open>2^32 - 1\<close>) in ascending numeric order, then every other key in the order of its creation.
  Assigning to an existing key replaces the value and keeps the position.
\<close>

definition digit_value :: "char \<Rightarrow> int" where
  "digit_value c = int (length (takeWhile (\<lambda>d. d \<noteq> c) ''0123456789''))"

definition numeric_value :: "string \<Rightarrow> int" where
  "numeric_value s = foldl (\<lambda>n c. 10 * n + digit_value c) 0 s"

definition is_array_index :: "string \<Rightarrow> bool" where
  "is_array_index s \<longleftrightarrow>
     s \<noteq> [] \<and> list_all (\<lambda>c. c \<in> set ''0123456789'') s \<and>
     (s = ''0'' \<or> hd s \<noteq> CHR ''0'') \<and> numeric_value s < 4294967295"

fun insert_index :: "string \<Rightarrow> 'v \<Rightarrow> (string \<times> 'v) list \<Rightarrow> (string \<times> 'v) list" where
  "insert_index k v [] = [(k, v)]"
| "insert_index k v ((k', v') # ps) =
     (if is_array_index k' \<and> numeric_value k' < numeric_value k
      then (k', v') # insert_index k v ps
      else (k, v) # (k', v') # ps)"

definition put_own :: "string \<Rightarrow> 'v \<Rightarrow> (string \<times> 'v) list \<Rightarrow> (string \<times> 'v) list" where
  "put_own k v ps =
     (if k \<in> fst ` set ps then map (\<lambda>(k', v'). if k' = k then (k', v) else (k', v')) ps
      else if is_array_index k then insert_index k v ps
      else ps @ [(k, v)])"

section \<open>The document and the flat index\<close>

text \<open>
  A value of the parsed document is \<open>null\<close> or an object, of which the fields \<open>type\<close>,
  \<open>name\<close>, \<open>text\<close> and \<open>children\<close> are read. \<open>None\<close> stands for a field that is not there; a
  number, a string or a boolean in the place of a node has none of the fields. The first
  three fields hold strings and \<open>children\<close> holds an object, given by its \<open>Object.entries\<close>;
  other values in these fields are not modelled.
\<close>

datatype node =
    Null
  | Object (node_type: "string option") (node_name: "string option")
      (node_text: "string option") (node_children: "(string \<times> node) list option")

datatype js_error = TypeError

record index_entry =
  entry_name :: "string option"
  entry_text :: "string option"
  entry_path :: "string list"
  entry_category :: string
  entry_subcategory :: "string option"

text \<open>
  \<open>flatSnippets\<close> starts as \<open>{}\<close>. Besides its own properties the model keeps the entry that an
  assignment to the key \<open>__proto__\<close> installed as prototype: that assignment runs the setter
  inherited from \<open>Object.prototype\<close> and creates no own property.
\<close>

record flat_snippets =
  own_entries :: "(string \<times> index_entry) list"
  proto_entry :: "index_entry option"

definition empty_flat :: flat_snippets where
  "empty_flat = \<lparr>own_entries = [], proto_entry = None\<rparr>"

definition assign :: "flat_snippets \<Rightarrow> string \<Rightarrow> index_entry \<Rightarrow> flat_snippets" where
  "assign obj k v =
     (if k = ''__proto__'' then obj\<lparr>proto_entry := Some v\<rparr>
      else obj\<lparr>own_entries := put_own k v (own_entries obj)\<rparr>)"

text \<open>\<open>path[0] || 'Root'\<close> and \<open>path[1] || null\<close>: an empty string is falsy as well.\<close>

definition category_of :: "string list \<Rightarrow> string" where
  "category_of path = (case path of [] \<Rightarrow> ''Root'' | p # _ \<Rightarrow> if p = [] then ''Root'' else p)"

definition subcategory_of :: "string list \<Rightarrow> string option" where
  "subcategory_of path =
     (case path of _ # q # _ \<Rightarrow> if q = [] then None else Some q | _ \<Rightarrow> None)"

text \<open>
  \<open>flattenSnippets(obj, path, result)\<close>: the loop over \<open>Object.entries(obj)\<close>, with \<open>result\<close>
  threaded through. Reading \<open>value.type\<close> of \<open>null\<close> throws; a \<open>children\<close> field that is not
  there is falsy, so that the second branch is not taken.
\<close>

fun flattenSnippets ::
  "(string \<times> node) list \<Rightarrow> string list \<Rightarrow> flat_snippets \<Rightarrow> js_error + flat_snippets" where
  "flattenSnippets [] path result = Inr result"
| "flattenSnippets ((key, Null) # rest) path result = Inl TypeError"
| "flattenSnippets ((key, Object ty nm tx ch) # rest) path result =
     (let currentPath = path @ [key] in
      if ty = Some ''snippet'' then
        flattenSnippets rest path
          (assign result (join currentPath)
             \<lparr>entry_name = nm, entry_text = tx, entry_path = currentPath,
              entry_category = category_of path, entry_subcategory = subcategory_of path\<rparr>)
      else if ty = Some ''folder'' then
        (case ch of
           None \<Rightarrow> flattenSnippets rest path result
         | Some children \<Rightarrow>
             (case flattenSnippets children currentPath result of
                Inl e \<Rightarrow> Inl e
              | Inr result' \<Rightarrow> flattenSnippets rest path result'))
      else flattenSnippets rest path result)"

text \<open>The constructor: \<open>this.flatSnippets = this.flattenSnippets()\<close> on \<open>jsonData.snippets\<close>.\<close>

definition build :: "(string \<times> node) list \<Rightarrow> js_error + flat_snippets" where
  "build snippets = flattenSnippets snippets [] empty_flat"

section \<open>The queries\<close>

text \<open>
  \<open>getSnippet(path)\<close> is \<open>this.flatSnippets[path] || null\<close>. An own property is an entry, which is
  truthy. For any other key the lookup goes on in the prototype chain: first the entry that
  \<open>__proto__\<close> was set to, if any, with the five properties of an entry, then \<open>Object.prototype\<close>.
  What is found there is no entry of the index; \<open>Inherited\<close> stands for such a truthy value.
\<close>

datatype lookup = Found index_entry | Inherited | NullResult

definition object_prototype_keys :: "string list" where
  "object_prototype_keys =
     [''constructor'', ''__defineGetter__'', ''__defineSetter__'', ''hasOwnProperty'',
      ''__lookupGetter__'', ''__lookupSetter__'', ''isPrototypeOf'', ''propertyIsEnumerable'',
      ''toString'', ''valueOf'', ''__proto__'', ''toLocaleString'']"

definition truthy_string :: "string option \<Rightarrow> bool" where
  "truthy_string x = (case x of None \<Rightarrow> False | Some s \<Rightarrow> s \<noteq> [])"

definition inherited_lookup :: "index_entry option \<Rightarrow> string \<Rightarrow> lookup" where
  "inherited_lookup pr k =
     (case pr of
        None \<Rightarrow> if k \<in> set object_prototype_keys then Inherited else NullResult
      | Some p \<Rightarrow>
          if k = ''__proto__'' then Found p
          else if k = ''name'' then (if truthy_string (entry_name p) then Inherited else NullResult)
          else if k = ''text'' then (if truthy_string (entry_text p) then Inherited else NullResult)
          else if k = ''path'' then Inherited
          else if k = ''category'' then (if entry_category p \<noteq> [] then Inherited else NullResult)
          else if k = ''subcategory'' then
            (if truthy_string (entry_subcategory p) then Inherited else NullResult)
          else if k \<in> set object_prototype_keys then Inherited
          else NullResult)"

definition getSnippet :: "flat_snippets \<Rightarrow> string \<Rightarrow> lookup" where
  "getSnippet flat path =
     (case map_of (own_entries flat) path of
        Some e \<Rightarrow> Found e
      | None \<Rightarrow> inherited_lookup (proto_entry flat) path)"

text \<open>The results of \<open>getSnippetsInFolder\<close> are \<open>{...snippet, fullPath: path}\<close>.\<close>

record located_snippet = index_entry +
  fullPath :: string

definition with_path :: "index_entry \<Rightarrow> string \<Rightarrow> located_snippet" where
  "with_path snippet path =
     \<lparr>entry_name = entry_name snippet, entry_text = entry_text snippet,
      entry_path = entry_path snippet, entry_category = entry_category snippet,
      entry_subcategory = entry_subcategory snippet, fullPath = path\<rparr>"

fun folder_loop ::
  "string \<Rightarrow> (string \<times> index_entry) list \<Rightarrow> located_snippet list \<Rightarrow> located_snippet list" where
  "folder_loop folderPrefix [] results = results"
| "folder_loop folderPrefix ((path, snippet) # rest) results =
     folder_loop folderPrefix rest
       (if startsWith path folderPrefix then results @ [with_path snippet path] else results)"

definition getSnippetsInFolder :: "flat_snippets \<Rightarrow> string \<Rightarrow> located_snippet list" where
  "getSnippetsInFolder flat folderPath =
     (let folderPrefix = folderPath @ ''/'' in folder_loop folderPrefix (own_entries flat) [])"

section \<open>Search\<close>

text \<open>
  The \<open>options\<close> argument: a field that is \<open>None\<close> is not given, and the destructuring
  puts the default in its place; \<open>maxResults\<close> is an integer of either sign. The results are
  \<open>{...snippet, fullPath: path, score: ...}\<close>.
\<close>

record search_options =
  opt_searchInText :: "bool option"
  opt_category :: "string option"
  opt_maxResults :: "int option"

definition or_default :: "'a option \<Rightarrow> 'a \<Rightarrow> 'a" where
  "or_default x d = (case x of None \<Rightarrow> d | Some v \<Rightarrow> v)"

definition no_options :: search_options where
  "no_options = \<lparr>opt_searchInText = None, opt_category = None, opt_maxResults = None\<rparr>"

record search_result = located_snippet +
  score :: int

definition with_score :: "index_entry \<Rightarrow> string \<Rightarrow> int \<Rightarrow> search_result" where
  "with_score snippet path s =
     \<lparr>entry_name = entry_name snippet, entry_text = entry_text snippet,
      entry_path = entry_path snippet, entry_category = entry_category snippet,
      entry_subcategory = entry_subcategory snippet, fullPath = path, score = s\<rparr>"

text \<open>\<open>x.toLowerCase()\<close> where \<open>x\<close> may be \<open>undefined\<close>: the call throws then.\<close>

definition lower_of :: "string option \<Rightarrow> js_error + string" where
  "lower_of x = (case x of None \<Rightarrow> Inl TypeError | Some s \<Rightarrow> Inr (toLowerCase s))"

definition calculateRelevanceScore :: "index_entry \<Rightarrow> string \<Rightarrow> string \<Rightarrow> js_error + int" where
  "calculateRelevanceScore snippet query path =
     (case lower_of (entry_name snippet) of
        Inl e \<Rightarrow> Inl e
      | Inr lname \<Rightarrow>
          (let score0 = 0;
               score1 = (if lname = query then score0 + 100
                         else if js_includes lname query then score0 + 50 else score0);
               score2 = (if js_includes (toLowerCase path) query then score1 + 25 else score1);
               score3 = score2 - int (length (split_path path))
           in Inr score3))"

text \<open>
  The body of the loop up to \<open>if (matches)\<close>: the four tests in the order of the source.
  A category that is \<open>null\<close> or the empty string is falsy and filters nothing.
\<close>

definition entry_matches ::
  "bool \<Rightarrow> string option \<Rightarrow> string \<Rightarrow> string \<Rightarrow> index_entry \<Rightarrow> js_error + bool" where
  "entry_matches searchInText category lowerQuery path snippet =
     (case lower_of (entry_name snippet) of
        Inl e \<Rightarrow> Inl e
      | Inr lname \<Rightarrow>
          (let matches0 = False;
               matches1 = (if js_includes lname lowerQuery then True else matches0);
               matches2 = (if js_includes (toLowerCase path) lowerQuery then True else matches1)
           in case (if searchInText
                    then (case lower_of (entry_text snippet) of
                            Inl e \<Rightarrow> Inl e
                          | Inr ltext \<Rightarrow> Inr (if js_includes ltext lowerQuery then True else matches2))
                    else Inr matches2) of
                Inl e \<Rightarrow> Inl e
              | Inr matches3 \<Rightarrow>
                  Inr (if truthy_string category \<and>
                          toLowerCase (entry_category snippet) \<noteq> toLowerCase (the category)
                       then False else matches3)))"

fun search_loop ::
  "bool \<Rightarrow> string option \<Rightarrow> int \<Rightarrow> string \<Rightarrow> (string \<times> index_entry) list \<Rightarrow>
   search_result list \<Rightarrow> js_error + search_result list" where
  "search_loop searchInText category maxResults lowerQuery [] results = Inr results"
| "search_loop searchInText category maxResults lowerQuery ((path, snippet) # rest) results =
     (case entry_matches searchInText category lowerQuery path snippet of
        Inl e \<Rightarrow> Inl e
      | Inr matches \<Rightarrow>
          (case (if matches
                 then (case calculateRelevanceScore snippet lowerQuery path of
                         Inl e \<Rightarrow> Inl e
                       | Inr s \<Rightarrow> Inr (results @ [with_score snippet path s]))
                 else Inr results) of
             Inl e \<Rightarrow> Inl e
           | Inr results' \<Rightarrow>
               if int (length results') \<ge> maxResults then Inr results'
               else search_loop searchInText category maxResults lowerQuery rest results'))"

text \<open>
  \<open>results.sort((a, b) => b.score - a.score)\<close>. The sort of an array is stable (ECMAScript
  2019), so with this comparator its result is the one of the stable insertion sort below:
  \<open>a\<close> stays in front of \<open>b\<close> unless the comparator is positive.
\<close>

fun insert_by :: "('a \<Rightarrow> 'a \<Rightarrow> int) \<Rightarrow> 'a \<Rightarrow> 'a list \<Rightarrow> 'a list" where
  "insert_by cmp x [] = [x]"
| "insert_by cmp x (y # ys) = (if cmp x y \<le> 0 then x # y # ys else y # insert_by cmp x ys)"

definition sort_by :: "('a \<Rightarrow> 'a \<Rightarrow> int) \<Rightarrow> 'a list \<Rightarrow> 'a list" where
  "sort_by cmp xs = foldr (insert_by cmp) xs []"

definition by_score :: "search_result \<Rightarrow> search_result \<Rightarrow> int" where
  "by_score a b = score b - score a"

definition searchSnippets ::
  "flat_snippets \<Rightarrow> string \<Rightarrow> search_options \<Rightarrow> js_error + search_result list" where
  "searchSnippets flat query options =
     (let searchInText = or_default (opt_searchInText options) False;
          category = opt_category options;
          maxResults = or_default (opt_maxResults options) 20;
          lowerQuery = toLowerCase query
      in case search_loop searchInText category maxResults lowerQuery (own_entries flat) [] of
           Inl e \<Rightarrow> Inl e
         | Inr results \<Rightarrow> Inr (sort_by by_score results))"

section \<open>The specification's scoring rule\<close>

text \<open>
  The rule in the words of the specification: start at 0; add 100 if the name equals the
  query case-insensitively, otherwise add 50 if the name contains the query; add 25 if the
  path string contains the query; subtract the number of path segments, which is one more
  than the number of slashes of the path string.
\<close>

definition ci_equal :: "string \<Rightarrow> string \<Rightarrow> bool" where
  "ci_equal a b \<longleftrightarrow> toLowerCase a = toLowerCase b"

definition ci_contains :: "string \<Rightarrow> string \<Rightarrow> bool" where
  "ci_contains s q \<longleftrightarrow> sublist (toLowerCase q) (toLowerCase s)"

definition segment_count :: "string \<Rightarrow> nat" where
  "segment_count path = Suc (count_list path CHR ''/'')"

definition spec_score :: "string \<Rightarrow> string \<Rightarrow> string \<Rightarrow> int" where
  "spec_score name query path =
     0 + (if ci_equal name query then 100 else if ci_contains name query then 50 else 0)
       + (if ci_contains path query then 25 else 0)
       - int (segment_count path)"

text \<open>
  For the statements about whole searches: an entry of the index matches when the loop's
  test yields true on it, and the result pushed for it carries the rule's score. An index
  is searchable when every name is there, and every text if the texts are searched.
\<close>

definition matching :: "bool \<Rightarrow> string option \<Rightarrow> string \<Rightarrow> string \<times> index_entry \<Rightarrow> bool" where
  "matching searchInText category query pe \<longleftrightarrow>
     entry_matches searchInText category (toLowerCase query) (fst pe) (snd pe) = Inr True"

definition scored :: "string \<Rightarrow> string \<times> index_entry \<Rightarrow> search_result" where
  "scored query pe =
     with_score (snd pe) (fst pe) (spec_score (the (entry_name (snd pe))) query (fst pe))"

definition searchable :: "bool \<Rightarrow> (string \<times> index_entry) list \<Rightarrow> bool" where
  "searchable searchInText idx \<longleftrightarrow>
     list_all (\<lambda>pe. entry_name (snd pe) \<noteq> None \<and>
                    (searchInText \<longrightarrow> entry_text (snd pe) \<noteq> None)) idx"

section \<open>Valid documents and the entries they stand for\<close>

text \<open>
  A document is valid when every node is well-formed (a snippet with a non-empty name and a
  text, or a folder with a children object, valid in turn), the keys of siblings are
  unique, and no key contains the path separator.
\<close>

definition valid_key :: "string \<Rightarrow> bool" where
  "valid_key k \<longleftrightarrow> CHR ''/'' \<notin> set k"

fun valid_children :: "(string \<times> node) list \<Rightarrow> bool" where
  "valid_children [] = True"
| "valid_children ((key, Null) # rest) = False"
| "valid_children ((key, Object ty nm tx ch) # rest) =
     (valid_key key \<and> key \<notin> fst ` set rest \<and>
      (if ty = Some ''snippet'' then truthy_string nm \<and> tx \<noteq> None
       else ty = Some ''folder'' \<and> (case ch of None \<Rightarrow> False | Some children \<Rightarrow> valid_children children)) \<and>
      valid_children rest)"

text \<open>The values reached by the traversal are all objects.\<close>

fun no_null :: "(string \<times> node) list \<Rightarrow> bool" where
  "no_null [] = True"
| "no_null ((key, Null) # rest) = False"
| "no_null ((key, Object ty nm tx ch) # rest) =
     ((if ty = Some ''snippet'' then True
       else if ty = Some ''folder'' then (case ch of None \<Rightarrow> True | Some children \<Rightarrow> no_null children)
       else True) \<and>
      no_null rest)"

text \<open>
  One entry for every snippet node reachable from the root, keyed by its joined path, in
  depth-first order; and the number of these nodes. Folders stand for no entry.
\<close>

fun snippet_entries :: "(string \<times> node) list \<Rightarrow> string list \<Rightarrow> (string \<times> index_entry) list" where
  "snippet_entries [] path = []"
| "snippet_entries ((key, Null) # rest) path = snippet_entries rest path"
| "snippet_entries ((key, Object ty nm tx ch) # rest) path =
     (if ty = Some ''snippet'' then
        [(join (path @ [key]),
          \<lparr>entry_name = nm, entry_text = tx, entry_path = path @ [key],
           entry_category = category_of path, entry_subcategory = subcategory_of path\<rparr>)]
      else if ty = Some ''folder'' then
        (case ch of None \<Rightarrow> [] | Some children \<Rightarrow> snippet_entries children (path @ [key]))
      else []) @ snippet_entries rest path"

fun count_snippets :: "(string \<times> node) list \<Rightarrow> nat" where
  "count_snippets [] = 0"
| "count_snippets ((key, Null) # rest) = count_snippets rest"
| "count_snippets ((key, Object ty nm tx ch) # rest) =
     (if ty = Some ''snippet'' then 1
      else if ty = Some ''folder'' then
        (case ch of None \<Rightarrow> 0 | Some children \<Rightarrow> count_snippets children)
      else 0) + count_snippets rest"

text \<open>Every property of an index is stored under the joined path of its entry, once.\<close>

definition keyed_by_path :: "(string \<times> index_entry) list \<Rightarrow> bool" where
  "keyed_by_path idx \<longleftrightarrow>
     distinct (map fst idx) \<and> list_all (\<lambda>pe. join (entry_path (snd pe)) = fst pe) idx"

section \<open>Example inputs\<close>

definition hello_entry :: index_entry where
  "hello_entry =
     \<lparr>entry_name = Some ''Hello'', entry_text = Some ''x'', entry_path = [''A'', ''Hello''],
      entry_category = ''A'', entry_subcategory = None\<rparr>"

definition hello_world_entry :: index_entry where
  "hello_world_entry =
     \<lparr>entry_name = Some ''Hello World'', entry_text = Some ''x'',
      entry_path = [''B'', ''C'', ''Hello World''], entry_category = ''B'',
      entry_subcategory = Some ''C''\<rparr>"

definition hello_index :: flat_snippets where
  "hello_index =
     \<lparr>own_entries = [(''A/Hello'', hello_entry), (''B/C/Hello World'', hello_world_entry)],
      proto_entry = None\<rparr>"

definition snippet_node :: "string \<Rightarrow> string \<Rightarrow> node" where
  "snippet_node n t = Object (Some ''snippet'') (Some n) (Some t) None"

definition folder_node :: "(string \<times> node) list \<Rightarrow> node" where
  "folder_node children = Object (Some ''folder'') None None (Some children)"

definition hello_document :: "(string \<times> node) list" where
  "hello_document =
     [(''A'', folder_node [(''Hello'', snippet_node ''Hello'' ''x'')]),
      (''B'', folder_node [(''C'', folder_node [(''Hello World'', snippet_node ''Hello World'' ''x'')])])]"

definition malformed_document :: "(string \<times> node) list" where
  "malformed_document =
     [(''A'', Object None (Some ''a'') (Some ''x'') None),
      (''B'', Object (Some ''folder'') None None None),
      (''C'', Object (Some ''snippet'') (Some ''c'') None None),
      (''D'', snippet_node ''d'' ''y'')]"

definition proto_document :: "(string \<times> node) list" where
  "proto_document = [(''__proto__'', snippet_node ''Hello'' ''x'')]"

definition empty_key_document :: "(string \<times> node) list" where
  "empty_key_document =
     [(''A'', folder_node [('''', snippet_node ''a'' ''x''), (''B'', snippet_node ''b'' ''y'')])]"

definition empty_name_document :: "(string \<times> node) list" where
  "empty_name_document = [(''A'', folder_node [(''x'', snippet_node '''' ''t'')])]"

definition reversed_hello_index :: flat_snippets where
  "reversed_hello_index =
     \<lparr>own_entries = [(''B/C/Hello World'', hello_world_entry), (''A/Hello'', hello_entry)],
      proto_entry = None\<rparr>"

definition entry_at_A :: index_entry where
  "entry_at_A =
     \<lparr>entry_name = Some ''a'', entry_text = Some ''x'', entry_path = [''A''],
      entry_category = ''Root'', entry_subcategory = None\<rparr>"

definition entry_at_A_B :: index_entry where
  "entry_at_A_B =
     \<lparr>entry_name = Some ''b'', entry_text = Some ''y'', entry_path = [''A'', ''B''],
      entry_category = ''A'', entry_subcategory = None\<rparr>"

definition folder_index :: flat_snippets where
  "folder_index =
     \<lparr>own_entries = [(''A'', entry_at_A), (''A/B'', entry_at_A_B)], proto_entry = None\<rparr>"

section \<open>Strings: substring test and segments\<close>

lemma js_includes_sublist: "js_includes s q \<longleftrightarrow> sublist q s"
  by (induction s) (simp_all add: startsWith_def sublist_Cons_right)

lemma split_path_not_Nil: "split_path s \<noteq> []"
  by (induction s) (auto split: list.splits)

lemma length_split_path: "length (split_path s) = segment_count s"
  unfolding segment_count_def
  by (induction s) (auto simp: split_path_not_Nil split: list.splits)

section \<open>The relevance score\<close>

lemma calculate_spec_score:
  "entry_name snippet = Some n \<Longrightarrow>
   calculateRelevanceScore snippet (toLowerCase query) path = Inr (spec_score n query path)"
  by (simp add: calculateRelevanceScore_def lower_of_def spec_score_def ci_equal_def
      ci_contains_def js_includes_sublist length_split_path Let_def)

lemma entry_matches_total:
  assumes "entry_name snippet \<noteq> None" and "searchInText \<longrightarrow> entry_text snippet \<noteq> None"
  shows "\<exists>b. entry_matches searchInText category lq path snippet = Inr b"
  using assms by (auto simp: entry_matches_def lower_of_def Let_def)

lemma entry_matches_name:
  "entry_matches searchInText category lq path snippet = Inr b \<Longrightarrow>
   \<exists>n. entry_name snippet = Some n"
  by (cases "entry_name snippet") (simp_all add: entry_matches_def lower_of_def)

text \<open>
  Claim C1. For every entry that passes the search predicate, the score that
  \<open>calculateRelevanceScore\<close> computes for it, called as \<open>searchSnippets\<close> calls it with the
  lower-cased query, is the score of the specification's rule: 100 for a name equal to the
  query up to case, otherwise 50 for a name containing it, plus 25 for a path string
  containing it, minus the number of segments of the path string.
\<close>

theorem score_of_matching_entry:
  assumes "entry_matches searchInText category (toLowerCase query) path snippet = Inr True"
  shows "\<exists>n. entry_name snippet = Some n \<and>
    calculateRelevanceScore snippet (toLowerCase query) path = Inr (spec_score n query path)"
proof -
  from assms obtain n where "entry_name snippet = Some n"
    using entry_matches_name by blast
  then show ?thesis
    by (simp add: calculate_spec_score)
qed

theorem score_of_matching_entry_witness:
  "entry_matches False None (toLowerCase ''Hello'') ''A/Hello'' hello_entry = Inr True \<and>
   calculateRelevanceScore hello_entry (toLowerCase ''Hello'') ''A/Hello'' = Inr 123"
proof -
  have m: "entry_matches False None (toLowerCase ''Hello'') ''A/Hello'' hello_entry = Inr True"
    by code_simp
  have "spec_score ''Hello'' ''Hello'' ''A/Hello'' = 123"
    by code_simp
  with score_of_matching_entry [OF m] m show ?thesis
    by (simp add: hello_entry_def)
qed

section \<open>The search loop\<close>

text \<open>
  One turn of the loop on a searchable entry, and the two closed forms of the loop: while
  fewer than \<open>maxResults\<close> results are held, it collects the first matches up to the cap;
  once the cap is reached or was never positive, it still examines one more entry before
  the test at the end of the body stops it.
\<close>

lemma search_step:
  assumes "entry_name (snd pe) \<noteq> None" and "searchInText \<longrightarrow> entry_text (snd pe) \<noteq> None"
  shows "search_loop searchInText category maxResults (toLowerCase query) (pe # rest) results =
    (let results' = (if matching searchInText category query pe then results @ [scored query pe] else results)
     in if int (length results') \<ge> maxResults then Inr results'
        else search_loop searchInText category maxResults (toLowerCase query) rest results')"
proof -
  obtain p e where pe: "pe = (p, e)" by (cases pe)
  from assms pe obtain n where n: "entry_name e = Some n" by auto
  from assms pe have "\<exists>b. entry_matches searchInText category (toLowerCase query) p e = Inr b"
    by (intro entry_matches_total) simp_all
  then obtain b where b: "entry_matches searchInText category (toLowerCase query) p e = Inr b" ..
  show ?thesis
    by (simp add: pe b n matching_def scored_def calculate_spec_score Let_def)
qed

lemma search_loop_capped:
  assumes "searchable searchInText idx" and "int (length results) < maxResults"
  shows "search_loop searchInText category maxResults (toLowerCase query) idx results =
    Inr (results @ map (scored query)
      (take (nat maxResults - length results) (filter (matching searchInText category query) idx)))"
  using assms
proof (induction idx arbitrary: results)
  case Nil
  then show ?case by simp
next
  case (Cons pe rest)
  from Cons.prems have pe: "entry_name (snd pe) \<noteq> None" "searchInText \<longrightarrow> entry_text (snd pe) \<noteq> None"
    and rest: "searchable searchInText rest"
    by (simp_all add: searchable_def)
  show ?case
  proof (cases "matching searchInText category query pe")
    case False
    with Cons.IH [OF rest Cons.prems(2)] Cons.prems(2) show ?thesis
      by (simp add: search_step [OF pe] Let_def)
  next
    case True
    show ?thesis
    proof (cases "int (length results) + 1 \<ge> maxResults")
      case stop: True
      with Cons.prems(2) have "nat maxResults - length results = Suc 0" by linarith
      with True stop show ?thesis
        by (simp add: search_step [OF pe] Let_def)
    next
      case go: False
      then have lt: "int (length (results @ [scored query pe])) < maxResults" by simp
      from go have "nat maxResults - length results = Suc (nat maxResults - length (results @ [scored query pe]))"
        by simp
      with True go Cons.IH [OF rest lt] show ?thesis
        by (simp add: search_step [OF pe] Let_def)
    qed
  qed
qed


text \<open>Whatever the entries, the loop only appends, and it appends in the order of the index.\<close>

lemma search_loop_subseq:
  "search_loop searchInText category maxResults lq idx results = Inr out \<Longrightarrow>
   \<exists>ys. out = results @ ys \<and> subseq (map fullPath ys) (map fst idx)"
proof (induction idx arbitrary: results out)
  case Nil
  then show ?case by simp
next
  case (Cons pe rest)
  obtain p e where pe: "pe = (p, e)" by (cases pe)
  from Cons.prems obtain b where b: "entry_matches searchInText category lq p e = Inr b"
    by (auto simp: pe split: sum.splits)
  show ?case
  proof (cases b)
    case False
    show ?thesis
    proof (cases "int (length results) \<ge> maxResults")
      case True
      with Cons.prems b False have "out = results" by (simp add: pe)
      then show ?thesis by simp
    next
      case go: False
      with Cons.prems b False
      have "search_loop searchInText category maxResults lq rest results = Inr out"
        by (simp add: pe)
      from Cons.IH [OF this] obtain ys where "out = results @ ys" "subseq (map fullPath ys) (map fst rest)"
        by blast
      then show ?thesis by (auto simp: pe intro: subseq_Cons')
    qed
  next
    case True
    with Cons.prems b obtain s where s: "calculateRelevanceScore e lq p = Inr s"
      by (auto simp: pe split: sum.splits)
    let ?r = "with_score e p s"
    have fp: "fullPath ?r = p" by (simp add: with_score_def)
    show ?thesis
    proof (cases "int (length (results @ [?r])) \<ge> maxResults")
      case stop: True
      with Cons.prems b True s have "out = results @ [?r]" by (simp add: pe)
      with fp show ?thesis by (simp add: pe)
    next
      case go: False
      with Cons.prems b True s
      have "search_loop searchInText category maxResults lq rest (results @ [?r]) = Inr out"
        by (simp add: pe)
      from Cons.IH [OF this] obtain ys where "out = (results @ [?r]) @ ys" "subseq (map fullPath ys) (map fst rest)"
        by blast
      with fp have "out = results @ (?r # ys) \<and> subseq (map fullPath (?r # ys)) (map fst (pe # rest))"
        by (simp add: pe)
      then show ?thesis by blast
    qed
  qed
qed

section \<open>Sorting by score\<close>

lemma insert_by_score: "insert_by by_score x ys = insort_key (\<lambda>r. - score r) x ys"
  by (induction ys) (simp_all add: by_score_def)

lemma sort_by_score: "sort_by by_score xs = sort_key (\<lambda>r. - score r) xs"
  by (induction xs) (simp_all add: sort_by_def insert_by_score)


section \<open>Whole searches\<close>

text \<open>
  With a cap of at least one, a search on a searchable index returns the first \<open>maxResults\<close>
  matches in the order of the index, sorted stably by descending score.
\<close>

lemma searchSnippets_capped:
  assumes "searchable (or_default (opt_searchInText options) False) (own_entries flat)"
    and "1 \<le> or_default (opt_maxResults options) 20"
  shows "searchSnippets flat query options =
    Inr (sort_key (\<lambda>r. - score r) (map (scored query)
      (take (nat (or_default (opt_maxResults options) 20))
         (filter (matching (or_default (opt_searchInText options) False) (opt_category options) query)
            (own_entries flat)))))"
proof -
  from assms(2) have "int (length ([] :: search_result list)) < or_default (opt_maxResults options) 20"
    by simp
  from search_loop_capped [OF assms(1) this] show ?thesis
    by (simp add: searchSnippets_def sort_by_score Let_def)
qed

text \<open>Two elements of a list in their order, and where they stand in a list that embeds them.\<close>

lemma subseq_pair_of_list:
  "i < j \<Longrightarrow> j < length xs \<Longrightarrow> subseq [xs ! i, xs ! j] xs"
proof (induction xs arbitrary: i j)
  case Nil
  then show ?case by simp
next
  case (Cons x xs)
  from Cons.prems obtain j' where j: "j = Suc j'" "j' < length xs"
    by (cases j) simp_all
  show ?case
  proof (cases i)
    case 0
    from j have "subseq [xs ! j'] xs" by (simp add: subseq_singleton_left)
    with 0 j show ?thesis by simp
  next
    case (Suc i')
    with Cons.prems j have "i' < j'" by simp
    from Cons.IH [OF this j(2)] have "subseq [xs ! i', xs ! j'] (x # xs)"
      by (rule list_emb_Cons)
    with Suc j show ?thesis by simp
  qed
qed

lemma subseq_pair_positions:
  "subseq [a, b] ys \<Longrightarrow> \<exists>i j. i < j \<and> j < length ys \<and> ys ! i = a \<and> ys ! j = b"
proof (induction ys)
  case Nil
  then show ?case by simp
next
  case (Cons y ys)
  show ?case
  proof (cases "y = a \<and> subseq [b] ys")
    case True
    then have "b \<in> set ys" by (simp add: subseq_singleton_left)
    then obtain j where "j < length ys" "ys ! j = b" by (auto simp: in_set_conv_nth)
    with True have "0 < Suc j \<and> Suc j < length (y # ys) \<and> (y # ys) ! 0 = a \<and> (y # ys) ! Suc j = b"
      by simp
    then show ?thesis by blast
  next
    case False
    with Cons.prems have "subseq [a, b] ys"
      by (auto elim: list_emb.cases)
    from Cons.IH [OF this] obtain i j where "i < j" "j < length ys" "ys ! i = a" "ys ! j = b"
      by blast
    then have "Suc i < Suc j \<and> Suc j < length (y # ys) \<and> (y # ys) ! Suc i = a \<and> (y # ys) ! Suc j = b"
      by simp
    then show ?thesis by blast
  qed
qed

text \<open>
  Claim C3. Whenever a search returns a list, for every index, query and options, the list
  is ordered by descending score, and for every score the results that have this score
  stand, by their keys, in the order in which the index enumerates these keys: any two
  results of equal score, the first in front of the second, are stored in the index under
  keys of which the first is enumerated before the second.
\<close>

theorem search_sorted_stable:
  assumes "searchSnippets flat query options = Inr out"
  shows "sorted_wrt (\<lambda>a b. score a \<ge> score b) out \<and>
    (\<forall>k. subseq (map fullPath (filter (\<lambda>r. score r = k) out)) (map fst (own_entries flat))) \<and>
    (\<forall>i j. i < j \<and> j < length out \<and> score (out ! i) = score (out ! j) \<longrightarrow>
       (\<exists>i' j'. i' < j' \<and> j' < length (own_entries flat) \<and>
          fst (own_entries flat ! i') = fullPath (out ! i) \<and>
          fst (own_entries flat ! j') = fullPath (out ! j)))"
proof -
  from assms obtain cands where
    loop: "search_loop (or_default (opt_searchInText options) False) (opt_category options)
      (or_default (opt_maxResults options) 20) (toLowerCase query) (own_entries flat) [] = Inr cands"
    and out: "out = sort_key (\<lambda>r. - score r) cands"
    by (auto simp: searchSnippets_def sort_by_score Let_def split: sum.splits)
  from search_loop_subseq [OF loop]
  have sub: "subseq (map fullPath cands) (map fst (own_entries flat))" by simp
  have "sorted (map (\<lambda>r. - score r) out)"
    by (simp add: out)
  then have sorted: "sorted_wrt (\<lambda>a b. score a \<ge> score b) out"
    by (simp add: sorted_map)
  have stable: "subseq (map fullPath (filter (\<lambda>r. score r = k) out)) (map fst (own_entries flat))" for k
  proof -
    have "filter (\<lambda>r. - score r = - k) out = filter (\<lambda>r. - score r = - k) cands"
      unfolding out by (rule sort_key_stable)
    then have "filter (\<lambda>r. score r = k) out = filter (\<lambda>r. score r = k) cands"
      by simp
    moreover have "subseq (map fullPath (filter (\<lambda>r. score r = k) cands)) (map fullPath cands)"
      by (simp add: subseq_map)
    ultimately show ?thesis
      using sub subseq_order.order_trans by metis
  qed
  have pairs: "\<exists>i' j'. i' < j' \<and> j' < length (own_entries flat) \<and>
      fst (own_entries flat ! i') = fullPath (out ! i) \<and>
      fst (own_entries flat ! j') = fullPath (out ! j)"
    if "i < j" and "j < length out" and "score (out ! i) = score (out ! j)" for i j
  proof -
    let ?P = "\<lambda>r. score r = score (out ! j)"
    from that(1,2) have "subseq [out ! i, out ! j] out" by (rule subseq_pair_of_list)
    then have "subseq (filter ?P [out ! i, out ! j]) (filter ?P out)" by (rule subseq_filter)
    with that(3) have "subseq [out ! i, out ! j] (filter ?P out)" by simp
    then have "subseq (map fullPath [out ! i, out ! j]) (map fullPath (filter ?P out))"
      by (simp only: subseq_map)
    with stable [of "score (out ! j)"]
    have "subseq (map fullPath [out ! i, out ! j]) (map fst (own_entries flat))"
      by (rule subseq_order.order_trans [rotated])
    then have "subseq [fullPath (out ! i), fullPath (out ! j)] (map fst (own_entries flat))"
      by simp
    from subseq_pair_positions [OF this] obtain i' j' where
      "i' < j'" "j' < length (own_entries flat)"
      "map fst (own_entries flat) ! i' = fullPath (out ! i)"
      "map fst (own_entries flat) ! j' = fullPath (out ! j)"
      by auto
    then have "i' < j' \<and> j' < length (own_entries flat) \<and>
      fst (own_entries flat ! i') = fullPath (out ! i) \<and>
      fst (own_entries flat ! j') = fullPath (out ! j)"
      by simp
    then show ?thesis by blast
  qed
  from sorted stable pairs show ?thesis by blast
qed

theorem search_sorted_stable_witness:
  "searchSnippets hello_index ''Hello'' no_options =
     Inr [with_score hello_entry ''A/Hello'' 123, with_score hello_world_entry ''B/C/Hello World'' 72] \<and>
   sorted_wrt (\<lambda>a b. score a \<ge> score b)
     [with_score hello_entry ''A/Hello'' 123, with_score hello_world_entry ''B/C/Hello World'' 72]"
proof -
  have run: "searchSnippets hello_index ''Hello'' no_options =
     Inr [with_score hello_entry ''A/Hello'' 123, with_score hello_world_entry ''B/C/Hello World'' 72]"
    by code_simp
  from search_sorted_stable [OF run] run show ?thesis by blast
qed

text \<open>
  Claim C2. The cap is applied while the loop collects, before the sort: for every
  searchable index, query and options with a cap of at least one, the output is the stable
  descending sort of the first \<open>maxResults\<close> matches in the order of the index. This is not
  the global top-K: with a cap of one on the index that lists \<open>B/C/Hello World\<close> first, the
  search for \<open>Hello\<close> returns the partial match (72) and never sees the exact one (123). With
  \<open>maxResults = 0\<close> the first \<open>maxResults\<close> matches are no matches at all, but the loop tests
  the cap only after it has pushed: the search returns the first entry of the index when it
  matches.
\<close>

theorem search_cap_before_sort:
  "(searchable (or_default (opt_searchInText options) False) (own_entries flat) \<and>
    1 \<le> or_default (opt_maxResults options) 20 \<longrightarrow>
      searchSnippets flat query options =
        Inr (sort_key (\<lambda>r. - score r) (map (scored query)
          (take (nat (or_default (opt_maxResults options) 20))
             (filter (matching (or_default (opt_searchInText options) False)
                (opt_category options) query) (own_entries flat)))))) \<and>
   searchSnippets reversed_hello_index ''Hello'' (no_options\<lparr>opt_maxResults := Some 1\<rparr>) =
     Inr [with_score hello_world_entry ''B/C/Hello World'' 72] \<and>
   searchSnippets hello_index ''Hello'' (no_options\<lparr>opt_maxResults := Some 0\<rparr>) =
     Inr [with_score hello_entry ''A/Hello'' 123]"
proof -
  have "searchSnippets reversed_hello_index ''Hello'' (no_options\<lparr>opt_maxResults := Some 1\<rparr>) =
     Inr [with_score hello_world_entry ''B/C/Hello World'' 72]"
    by code_simp
  moreover
  have "searchSnippets hello_index ''Hello'' (no_options\<lparr>opt_maxResults := Some 0\<rparr>) =
     Inr [with_score hello_entry ''A/Hello'' 123]"
    by code_simp
  ultimately show ?thesis
    using searchSnippets_capped [of options flat query] by blast
qed

theorem search_cap_before_sort_witness:
  "searchable (or_default (opt_searchInText no_options) False) (own_entries hello_index) \<and>
   1 \<le> or_default (opt_maxResults no_options) 20 \<and>
   searchSnippets hello_index ''Hello'' no_options =
     Inr (sort_key (\<lambda>r. - score r) (map (scored ''Hello'')
       (take 20 (filter (matching False None ''Hello'') (own_entries hello_index)))))"
proof -
  have s: "searchable (or_default (opt_searchInText no_options) False) (own_entries hello_index)"
    by (simp add: searchable_def hello_index_def hello_entry_def hello_world_entry_def)
  have m: "1 \<le> or_default (opt_maxResults no_options) 20"
    by (simp add: no_options_def or_default_def)
  from search_cap_before_sort [of no_options hello_index "''Hello''"] s m show ?thesis
    by (simp add: no_options_def or_default_def)
qed

text \<open>
  Claim C8, amended. On an index that holds exactly an entry named \<open>Hello\<close> at \<open>A/Hello\<close> and an
  entry named \<open>Hello World\<close> at \<open>B/C/Hello World\<close>, in either order, the search for \<open>Hello\<close>
  with no options scores the exact match \<open>100 + 25 - 2 = 123\<close> and the partial match
  \<open>50 + 25 - 3 = 72\<close>: both path strings contain the query, and the entry's own key counts as
  a segment. The exact match comes first.
\<close>

theorem hello_scores:
  fixes a b :: index_entry
  defines "e1 \<equiv> a\<lparr>entry_name := Some ''Hello''\<rparr>" and "e2 \<equiv> b\<lparr>entry_name := Some ''Hello World''\<rparr>"
  shows "searchSnippets \<lparr>own_entries = [(''A/Hello'', e1), (''B/C/Hello World'', e2)], proto_entry = pr\<rparr>
      ''Hello'' no_options =
     Inr [with_score e1 ''A/Hello'' 123, with_score e2 ''B/C/Hello World'' 72] \<and>
   searchSnippets \<lparr>own_entries = [(''B/C/Hello World'', e2), (''A/Hello'', e1)], proto_entry = pr\<rparr>
      ''Hello'' no_options =
     Inr [with_score e1 ''A/Hello'' 123, with_score e2 ''B/C/Hello World'' 72]"
proof -
  have lq: "toLowerCase ''Hello'' = ''hello''" by code_simp
  have m1: "entry_matches False None ''hello'' ''A/Hello'' e1 = Inr True"
    by (simp add: e1_def entry_matches_def lower_of_def truthy_string_def toLowerCase_def lower_char_def startsWith_def)
  have m2: "entry_matches False None ''hello'' ''B/C/Hello World'' e2 = Inr True"
    by (simp add: e2_def entry_matches_def lower_of_def truthy_string_def toLowerCase_def lower_char_def startsWith_def)
  have s1: "calculateRelevanceScore e1 ''hello'' ''A/Hello'' = Inr 123"
    by (simp add: e1_def calculateRelevanceScore_def lower_of_def toLowerCase_def lower_char_def startsWith_def)
  have s2: "calculateRelevanceScore e2 ''hello'' ''B/C/Hello World'' = Inr 72"
    by (simp add: e2_def calculateRelevanceScore_def lower_of_def toLowerCase_def lower_char_def startsWith_def)
  show ?thesis
    by (simp add: searchSnippets_def no_options_def or_default_def lq m1 m2 s1 s2 sort_by_def
        by_score_def with_score_def)
qed

text \<open>The scores are not the 99 and 48 of claim C8 as it is stated.\<close>

theorem hello_scores_counterexample:
  "map_sum id (map score) (searchSnippets hello_index ''Hello'' no_options) = Inr [123, 72] \<and>
   map_sum id (map score) (searchSnippets hello_index ''Hello'' no_options) \<noteq> Inr [99, 48]"
  by code_simp

section \<open>The empty query\<close>

lemma matching_empty_query:
  "entry_name (snd pe) \<noteq> None \<Longrightarrow> matching False None [] pe"
  by (cases "entry_name (snd pe)")
     (simp_all add: matching_def entry_matches_def lower_of_def truthy_string_def toLowerCase_def
       js_includes_sublist)

lemma spec_score_empty_query:
  "spec_score n [] p = (if n = [] then 100 else 50) + 25 - int (segment_count p)"
  by (simp add: spec_score_def ci_equal_def ci_contains_def toLowerCase_def)

text \<open>
  Claim C10, amended. On every index whose entries all have a name, the search for the empty
  string with default options matches every entry: it returns the first
  \<open>min 20 (number of entries)\<close> entries of the index, each scored \<open>50 + 25\<close> minus the number of
  segments of its path string, or \<open>100 + 25\<close> minus that number when its name is the empty
  string, which equals the query; the list is sorted by descending score.
\<close>

theorem empty_query_search:
  assumes "list_all (\<lambda>pe. entry_name (snd pe) \<noteq> None) (own_entries flat)"
  shows "searchSnippets flat [] no_options =
      Inr (sort_key (\<lambda>r. - score r)
        (map (\<lambda>pe. \<lparr>entry_name = entry_name (snd pe), entry_text = entry_text (snd pe),
                    entry_path = entry_path (snd pe), entry_category = entry_category (snd pe),
                    entry_subcategory = entry_subcategory (snd pe), fullPath = fst pe,
                    score = (if entry_name (snd pe) = Some [] then 100 else 50) + 25
                            - int (segment_count (fst pe))\<rparr>)
           (take 20 (own_entries flat)))) \<and>
    (\<forall>out. searchSnippets flat [] no_options = Inr out \<longrightarrow>
       length out = min 20 (length (own_entries flat)) \<and>
       sorted_wrt (\<lambda>a b. score a \<ge> score b) out)"
proof -
  let ?idx = "own_entries flat"
  let ?mk = "\<lambda>pe :: string \<times> index_entry.
    \<lparr>entry_name = entry_name (snd pe), entry_text = entry_text (snd pe),
     entry_path = entry_path (snd pe), entry_category = entry_category (snd pe),
     entry_subcategory = entry_subcategory (snd pe), fullPath = fst pe,
     score = (if entry_name (snd pe) = Some [] then 100 else 50) + 25
             - int (segment_count (fst pe))\<rparr>"
  from assms have present: "\<forall>pe \<in> set ?idx. entry_name (snd pe) \<noteq> None"
    by (simp add: list_all_iff)
  then have "searchable False ?idx"
    by (simp add: searchable_def list_all_iff)
  then have run: "searchSnippets flat [] no_options =
    Inr (sort_key (\<lambda>r. - score r) (map (scored [])
      (take 20 (filter (matching False None []) ?idx))))"
    using searchSnippets_capped [of no_options flat "[]"]
    by (simp add: no_options_def or_default_def)
  from present have all: "filter (matching False None []) ?idx = ?idx"
    by (simp add: matching_empty_query)
  have one: "scored [] pe = ?mk pe" if "entry_name (snd pe) \<noteq> None" for pe
  proof -
    from that obtain n where "entry_name (snd pe) = Some n" by auto
    then show ?thesis
      by (simp add: scored_def with_score_def spec_score_empty_query)
  qed
  have "map (scored []) (take 20 ?idx) = map ?mk (take 20 ?idx)"
  proof (rule map_cong [OF refl])
    fix pe assume "pe \<in> set (take 20 ?idx)"
    then have "pe \<in> set ?idx" by (rule in_set_takeD)
    with present have "entry_name (snd pe) \<noteq> None" by simp
    then show "scored [] pe = ?mk pe" by (rule one)
  qed
  with run all have eq: "searchSnippets flat [] no_options =
      Inr (sort_key (\<lambda>r. - score r) (map ?mk (take 20 ?idx)))"
    by simp
  have "sorted (map (\<lambda>r. - score r) (sort_key (\<lambda>r. - score r) xs))" for xs :: "search_result list"
    by simp
  then have "sorted_wrt (\<lambda>a b. score a \<ge> score b) (sort_key (\<lambda>r. - score r) xs)"
    for xs :: "search_result list"
    by (simp add: sorted_map)
  with eq show ?thesis by (auto simp: min_def)
qed

theorem empty_query_search_witness:
  "list_all (\<lambda>pe. entry_name (snd pe) \<noteq> None) (own_entries hello_index) \<and>
   searchSnippets hello_index [] no_options =
     Inr [\<lparr>entry_name = Some ''Hello'', entry_text = Some ''x'', entry_path = [''A'', ''Hello''],
           entry_category = ''A'', entry_subcategory = None, fullPath = ''A/Hello'',
           score = 73\<rparr>,
          \<lparr>entry_name = Some ''Hello World'', entry_text = Some ''x'',
           entry_path = [''B'', ''C'', ''Hello World''], entry_category = ''B'',
           entry_subcategory = Some ''C'', fullPath = ''B/C/Hello World'', score = 72\<rparr>]"
proof -
  have names: "list_all (\<lambda>pe. entry_name (snd pe) \<noteq> None) (own_entries hello_index)"
    by (simp add: hello_index_def hello_entry_def hello_world_entry_def)
  have "sort_key (\<lambda>r. - score r)
        (map (\<lambda>pe. \<lparr>entry_name = entry_name (snd pe), entry_text = entry_text (snd pe),
                    entry_path = entry_path (snd pe), entry_category = entry_category (snd pe),
                    entry_subcategory = entry_subcategory (snd pe), fullPath = fst pe,
                    score = (if entry_name (snd pe) = Some [] then 100 else 50) + 25
                            - int (segment_count (fst pe))\<rparr>)
           (take 20 (own_entries hello_index))) =
     [\<lparr>entry_name = Some ''Hello'', entry_text = Some ''x'', entry_path = [''A'', ''Hello''],
           entry_category = ''A'', entry_subcategory = None, fullPath = ''A/Hello'',
           score = 73\<rparr>,
          \<lparr>entry_name = Some ''Hello World'', entry_text = Some ''x'',
           entry_path = [''B'', ''C'', ''Hello World''], entry_category = ''B'',
           entry_subcategory = Some ''C'', fullPath = ''B/C/Hello World'', score = 72\<rparr>]"
    by (simp add: hello_index_def hello_entry_def hello_world_entry_def segment_count_def)
  with empty_query_search [OF names] names show ?thesis by simp
qed

text \<open>
  The constructor copies an empty name as it is, and the entry then scores \<open>100 + 25 - 2\<close> on
  the empty query, not the \<open>50 + 25 - 2\<close> of claim C10 as stated.
\<close>

theorem empty_name_counterexample:
  "build empty_name_document =
     Inr \<lparr>own_entries =
            [(''A/x'', \<lparr>entry_name = Some '''', entry_text = Some ''t'', entry_path = [''A'', ''x''],
                       entry_category = ''A'', entry_subcategory = None\<rparr>)],
          proto_entry = None\<rparr> \<and>
   searchSnippets
     \<lparr>own_entries =
        [(''A/x'', \<lparr>entry_name = Some '''', entry_text = Some ''t'', entry_path = [''A'', ''x''],
                   entry_category = ''A'', entry_subcategory = None\<rparr>)],
      proto_entry = None\<rparr> [] no_options =
     Inr [\<lparr>entry_name = Some '''', entry_text = Some ''t'', entry_path = [''A'', ''x''],
           entry_category = ''A'', entry_subcategory = None, fullPath = ''A/x'', score = 123\<rparr>] \<and>
   (123 :: int) \<noteq> 50 + 25 - int (segment_count ''A/x'')"
proof -
  have "build empty_name_document =
     Inr \<lparr>own_entries =
            [(''A/x'', \<lparr>entry_name = Some '''', entry_text = Some ''t'', entry_path = [''A'', ''x''],
                       entry_category = ''A'', entry_subcategory = None\<rparr>)],
          proto_entry = None\<rparr>"
    by (simp add: build_def empty_name_document_def folder_node_def snippet_node_def assign_def
        put_own_def is_array_index_def empty_flat_def category_of_def subcategory_of_def)
  moreover have "searchSnippets
     \<lparr>own_entries =
        [(''A/x'', \<lparr>entry_name = Some '''', entry_text = Some ''t'', entry_path = [''A'', ''x''],
                   entry_category = ''A'', entry_subcategory = None\<rparr>)],
      proto_entry = None\<rparr> [] no_options =
     Inr [\<lparr>entry_name = Some '''', entry_text = Some ''t'', entry_path = [''A'', ''x''],
           entry_category = ''A'', entry_subcategory = None, fullPath = ''A/x'', score = 123\<rparr>]"
    by code_simp
  moreover have "(123 :: int) \<noteq> 50 + 25 - int (segment_count ''A/x'')"
    by (simp add: segment_count_def)
  ultimately show ?thesis by (intro conjI)
qed

section \<open>Assignment to an object\<close>

lemma set_insert_index: "set (insert_index k v ps) = insert (k, v) (set ps)"
  by (induction ps) (auto split: if_splits)

lemma mset_insert_index: "mset (insert_index k v ps) = add_mset (k, v) (mset ps)"
  by (induction ps) auto

lemma distinct_insert_index:
  "distinct (map fst (insert_index k v ps)) \<longleftrightarrow> k \<notin> fst ` set ps \<and> distinct (map fst ps)"
proof (induction ps)
  case Nil
  then show ?case by simp
next
  case (Cons p ps)
  obtain k' v' where p: "p = (k', v')" by (cases p)
  show ?case
  proof (cases "is_array_index k' \<and> numeric_value k' < numeric_value k")
    case True
    then show ?thesis
      using Cons.IH by (force simp: p set_insert_index)
  next
    case False
    then show ?thesis
      by (force simp: p)
  qed
qed

lemma keys_put_own_present:
  "k \<in> fst ` set ps \<Longrightarrow> map fst (put_own k v ps) = map fst ps"
  by (auto simp: put_own_def split: prod.splits)

lemma mset_put_own_fresh:
  "k \<notin> fst ` set ps \<Longrightarrow> mset (put_own k v ps) = add_mset (k, v) (mset ps)"
  by (simp add: put_own_def mset_insert_index)

lemma set_put_own_subset: "set (put_own k v ps) \<subseteq> insert (k, v) (set ps)"
  by (auto simp: put_own_def set_insert_index split: if_splits)

lemma distinct_put_own:
  assumes "distinct (map fst ps)"
  shows "distinct (map fst (put_own k v ps))"
proof (cases "k \<in> fst ` set ps")
  case True
  with assms show ?thesis by (simp add: keys_put_own_present)
next
  case False
  with assms show ?thesis
    by (simp add: put_own_def distinct_insert_index)
qed

section \<open>The traversal\<close>

lemma flatten_append:
  "flattenSnippets (xs @ ys) path result =
     (case flattenSnippets xs path result of
        Inl e \<Rightarrow> Inl e
      | Inr result' \<Rightarrow> flattenSnippets ys path result')"
  by (induction xs path result rule: flattenSnippets.induct)
     (simp_all add: Let_def split: option.splits sum.splits)

lemma flatten_total:
  "no_null kids \<Longrightarrow> \<exists>result'. flattenSnippets kids path result = Inr result'"
proof (induction kids path result rule: flattenSnippets.induct)
  case (1 path result)
  then show ?case by simp
next
  case (2 key rest path result)
  then show ?case by simp
next
  case (3 key ty nm tx ch rest path result)
  show ?case
  proof (cases "ty = Some ''snippet''")
    case True
    with 3 show ?thesis by (simp add: Let_def)
  next
    case snippet: False
    show ?thesis
    proof (cases "ty = Some ''folder''")
      case False
      with snippet 3 show ?thesis by (simp add: Let_def)
    next
      case True
      show ?thesis
      proof (cases ch)
        case None
        with snippet True 3 show ?thesis by (simp add: Let_def)
      next
        case (Some children)
        with snippet True "3.prems" have nk: "no_null children" and nr: "no_null rest"
          by simp_all
        from "3.IH"(3) [OF refl snippet True Some nk] obtain r1 where
          r1: "flattenSnippets children (path @ [key]) result = Inr r1" ..
        from "3.IH"(4) [OF refl snippet True Some r1 nr] obtain r2 where
          "flattenSnippets rest path r1 = Inr r2" ..
        with snippet True Some r1 show ?thesis by (simp add: Let_def)
      qed
    qed
  qed
qed

lemma valid_no_null: "valid_children kids \<Longrightarrow> no_null kids"
  by (induction kids rule: no_null.induct) (auto split: option.splits if_splits)

lemma keyed_put_own:
  assumes "keyed_by_path idx" and "join (entry_path e) = k"
  shows "keyed_by_path (put_own k e idx)"
  using assms set_put_own_subset [of k e idx]
  by (auto simp: keyed_by_path_def distinct_put_own list_all_iff)

lemma keyed_assign:
  assumes "keyed_by_path (own_entries result)" and "join (entry_path e) = k"
  shows "keyed_by_path (own_entries (assign result k e))"
  using assms by (simp add: assign_def keyed_put_own)

lemma flatten_keyed:
  "flattenSnippets kids path result = Inr result' \<Longrightarrow> keyed_by_path (own_entries result) \<Longrightarrow>
   keyed_by_path (own_entries result')"
proof (induction kids path result arbitrary: result' rule: flattenSnippets.induct)
  case (1 path result)
  then show ?case by simp
next
  case (2 key rest path result)
  then show ?case by simp
next
  case (3 key ty nm tx ch rest path result)
  show ?case
  proof (cases "ty = Some ''snippet''")
    case True
    with 3 show ?thesis by (simp add: Let_def keyed_assign)
  next
    case snippet: False
    show ?thesis
    proof (cases "ty = Some ''folder''")
      case False
      with snippet 3 show ?thesis by (simp add: Let_def)
    next
      case True
      show ?thesis
      proof (cases ch)
        case None
        with snippet True 3 show ?thesis by (simp add: Let_def)
      next
        case (Some children)
        with snippet True "3.prems" obtain r1 where
          r1: "flattenSnippets children (path @ [key]) result = Inr r1"
          and r2: "flattenSnippets rest path r1 = Inr result'"
          by (auto simp: Let_def split: sum.splits)
        from "3.IH"(3) [OF refl snippet True Some r1 "3.prems"(2)]
        have "keyed_by_path (own_entries r1)" .
        from "3.IH"(4) [OF refl snippet True Some r1 r2 this] show ?thesis .
      qed
    qed
  qed
qed



section \<open>Searches never fail on a searchable index\<close>




section \<open>The example document\<close>

lemma build_hello_document: "build hello_document = Inr hello_index"
  by (simp add: build_def hello_document_def folder_node_def snippet_node_def assign_def
      put_own_def is_array_index_def empty_flat_def category_of_def subcategory_of_def
      hello_index_def hello_entry_def hello_world_entry_def)

lemma valid_hello_document: "valid_children hello_document"
  by (simp add: hello_document_def folder_node_def snippet_node_def valid_key_def
      truthy_string_def)

section \<open>Exact lookup\<close>

text \<open>
  Claim C6. For every entry of the flat index that the constructor builds, the key under
  which it is stored is its slash-joined path, and \<open>getSnippet\<close> on that path string returns
  this very entry.
\<close>

theorem lookup_round_trip:
  assumes "build doc = Inr flat" and "(k, e) \<in> set (own_entries flat)"
  shows "join (entry_path e) = k \<and> getSnippet flat (join (entry_path e)) = Found e"
proof -
  have "keyed_by_path (own_entries empty_flat)"
    by (simp add: keyed_by_path_def empty_flat_def)
  with assms(1) have keyed: "keyed_by_path (own_entries flat)"
    unfolding build_def by (rule flatten_keyed)
  with assms(2) have key: "join (entry_path e) = k"
    by (auto simp: keyed_by_path_def list_all_iff)
  from keyed assms(2) have "map_of (own_entries flat) k = Some e"
    by (simp add: keyed_by_path_def)
  with key show ?thesis
    by (simp add: getSnippet_def)
qed

theorem lookup_round_trip_witness:
  "build hello_document = Inr hello_index \<and>
   (''A/Hello'', hello_entry) \<in> set (own_entries hello_index) \<and>
   getSnippet hello_index ''A/Hello'' = Found hello_entry"
proof -
  note b = build_hello_document
  have m: "(''A/Hello'', hello_entry) \<in> set (own_entries hello_index)"
    by (simp add: hello_index_def)
  have "join (entry_path hello_entry) = ''A/Hello''" by (simp add: hello_entry_def)
  with lookup_round_trip [OF b m] b m show ?thesis by simp
qed

section \<open>Options are not validated\<close>




section \<open>Malformed nodes\<close>

text \<open>
  Claim C4, amended. The construction does not fail on a malformed node. On every list of
  children whose values are objects the traversal returns an index; a node without the
  \<open>type\<close> discriminator (or with an unknown one) and a folder without \<open>children\<close> are
  skipped as if they were not there; a snippet without \<open>text\<close> gets its entry, whose text is
  absent.
\<close>

theorem malformed_nodes_tolerated:
  "(no_null doc \<longrightarrow> (\<exists>flat. flattenSnippets doc path result = Inr flat)) \<and>
   (ty \<noteq> Some ''snippet'' \<and> (ty = Some ''folder'' \<longrightarrow> ch = None) \<longrightarrow>
      flattenSnippets (xs @ (key, Object ty nm tx ch) # ys) path result =
      flattenSnippets (xs @ ys) path result) \<and>
   flattenSnippets (xs @ (key, Object (Some ''snippet'') nm None ch) # ys) path result =
     (case flattenSnippets xs path result of
        Inl e \<Rightarrow> Inl e
      | Inr result' \<Rightarrow>
          flattenSnippets ys path
            (assign result' (join (path @ [key]))
               \<lparr>entry_name = nm, entry_text = None, entry_path = path @ [key],
                entry_category = category_of path, entry_subcategory = subcategory_of path\<rparr>))"
proof (intro conjI impI)
  assume "no_null doc"
  then show "\<exists>flat. flattenSnippets doc path result = Inr flat" by (rule flatten_total)
next
  assume "ty \<noteq> Some ''snippet'' \<and> (ty = Some ''folder'' \<longrightarrow> ch = None)"
  then show "flattenSnippets (xs @ (key, Object ty nm tx ch) # ys) path result =
      flattenSnippets (xs @ ys) path result"
    by (simp add: flatten_append [of xs] Let_def split: sum.splits)
next
  show "flattenSnippets (xs @ (key, Object (Some ''snippet'') nm None ch) # ys) path result =
     (case flattenSnippets xs path result of
        Inl e \<Rightarrow> Inl e
      | Inr result' \<Rightarrow>
          flattenSnippets ys path
            (assign result' (join (path @ [key]))
               \<lparr>entry_name = nm, entry_text = None, entry_path = path @ [key],
                entry_category = category_of path, entry_subcategory = subcategory_of path\<rparr>))"
    by (simp add: flatten_append [of xs] Let_def split: sum.splits)
qed

theorem malformed_nodes_tolerated_witness:
  "no_null malformed_document \<and>
   (\<exists>flat. flattenSnippets malformed_document [] empty_flat = Inr flat) \<and>
   flattenSnippets ([] @ (''B'', Object (Some ''folder'') None None None) # []) [] empty_flat =
     flattenSnippets ([] @ []) [] empty_flat"
proof -
  have n: "no_null malformed_document"
    by (simp add: malformed_document_def snippet_node_def)
  have f: "Some ''folder'' \<noteq> Some ''snippet'' \<and>
      (Some ''folder'' = Some ''folder'' \<longrightarrow> (None :: (string \<times> node) list option) = None)"
    by simp
  from malformed_nodes_tolerated [where doc = malformed_document and path = "[]"
      and result = empty_flat and ty = "Some ''folder''" and ch = None and xs = "[]"
      and key = "''B''" and nm = None and tx = None and ys = "[]"] n f
  show ?thesis by blast
qed

text \<open>
  A document with a node of each malformed kind is indexed without error, against claim C4
  as stated: two of the nodes are dropped silently.
\<close>

theorem malformed_document_counterexample:
  "build malformed_document =
     Inr \<lparr>own_entries =
            [(''C'', \<lparr>entry_name = Some ''c'', entry_text = None, entry_path = [''C''],
                     entry_category = ''Root'', entry_subcategory = None\<rparr>),
             (''D'', \<lparr>entry_name = Some ''d'', entry_text = Some ''y'', entry_path = [''D''],
                     entry_category = ''Root'', entry_subcategory = None\<rparr>)],
          proto_entry = None\<rparr>"
  by (simp add: build_def malformed_document_def snippet_node_def assign_def
      put_own_def is_array_index_def empty_flat_def category_of_def subcategory_of_def)


text \<open>
  A snippet without \<open>name\<close> is indexed as well, and the failure is deferred to the first
  search that reaches its entry.
\<close>

lemma nameless_entry_breaks_search:
  assumes "entry_name e = None"
  shows "searchSnippets \<lparr>own_entries = (p, e) # rest, proto_entry = pr\<rparr> query options =
    Inl TypeError"
  using assms by (simp add: searchSnippets_def entry_matches_def lower_of_def Let_def)

section \<open>Snippets in a folder\<close>

lemma folder_loop_filter:
  "folder_loop folderPrefix idx results =
     results @ map (\<lambda>pe. with_path (snd pe) (fst pe)) (filter (\<lambda>pe. prefix folderPrefix (fst pe)) idx)"
  by (induction idx arbitrary: results) (auto simp: startsWith_def)

text \<open>
  Claim C7, amended. For every folder path, \<open>getSnippetsInFolder\<close> returns exactly the entries,
  in the order of the index, whose path string starts with the folder path followed by a
  slash. An entry whose path string is the folder path itself is never among them; an entry
  at the folder path followed by \<open>/B\<close> always is. The prefix need not be a strict one: it is
  strict for every returned entry but the one whose path string is the folder path followed
  by the slash and nothing more.
\<close>

theorem folder_entries:
  "getSnippetsInFolder flat folderPath =
     map (\<lambda>pe. \<lparr>entry_name = entry_name (snd pe), entry_text = entry_text (snd pe),
                 entry_path = entry_path (snd pe), entry_category = entry_category (snd pe),
                 entry_subcategory = entry_subcategory (snd pe), fullPath = fst pe\<rparr>)
       (filter (\<lambda>pe. prefix (folderPath @ ''/'') (fst pe)) (own_entries flat)) \<and>
   (\<forall>r \<in> set (getSnippetsInFolder flat folderPath). fullPath r \<noteq> folderPath) \<and>
   (\<forall>e. (folderPath @ ''/B'', e) \<in> set (own_entries flat) \<longrightarrow>
      \<lparr>entry_name = entry_name e, entry_text = entry_text e, entry_path = entry_path e,
       entry_category = entry_category e, entry_subcategory = entry_subcategory e,
       fullPath = folderPath @ ''/B''\<rparr> \<in> set (getSnippetsInFolder flat folderPath)) \<and>
   (\<forall>r \<in> set (getSnippetsInFolder flat folderPath).
      fullPath r \<noteq> folderPath @ ''/'' \<longrightarrow> strict_prefix (folderPath @ ''/'') (fullPath r))"
proof -
  let ?mk = "\<lambda>pe :: string \<times> index_entry.
    \<lparr>entry_name = entry_name (snd pe), entry_text = entry_text (snd pe),
     entry_path = entry_path (snd pe), entry_category = entry_category (snd pe),
     entry_subcategory = entry_subcategory (snd pe), fullPath = fst pe\<rparr>"
  let ?keep = "filter (\<lambda>pe. prefix (folderPath @ ''/'') (fst pe)) (own_entries flat)"
  have mk: "(\<lambda>pe. with_path (snd pe) (fst pe)) = ?mk"
    by (simp add: with_path_def)
  have eq: "getSnippetsInFolder flat folderPath = map ?mk ?keep"
    by (simp add: getSnippetsInFolder_def folder_loop_filter mk)
  have pre: "prefix (folderPath @ ''/'') (fullPath r)" if "r \<in> set (map ?mk ?keep)" for r
  proof -
    from that obtain pe where "pe \<in> set ?keep" and "r = ?mk pe" by auto
    then show ?thesis by simp
  qed
  have excluded: "fullPath r \<noteq> folderPath" if "r \<in> set (map ?mk ?keep)" for r
  proof
    assume "fullPath r = folderPath"
    with pre [OF that] have "prefix (folderPath @ ''/'') folderPath" by simp
    then show False by (auto simp: prefix_def)
  qed
  have included: "?mk (folderPath @ ''/B'', e) \<in> set (map ?mk ?keep)"
    if "(folderPath @ ''/B'', e) \<in> set (own_entries flat)" for e
  proof -
    have "prefix (folderPath @ ''/'') (folderPath @ ''/B'')" by simp
    with that have "(folderPath @ ''/B'', e) \<in> set ?keep" by simp
    then show ?thesis unfolding set_map by (rule imageI)
  qed
  have proper: "strict_prefix (folderPath @ ''/'') (fullPath r)"
    if "r \<in> set (map ?mk ?keep)" and "fullPath r \<noteq> folderPath @ ''/''" for r
    using pre [OF that(1)] that(2) by (auto simp: strict_prefix_def)
  from excluded included proper show ?thesis
    unfolding eq by simp
qed

theorem folder_entries_witness:
  "(''A'' @ ''/B'', entry_at_A_B) \<in> set (own_entries folder_index) \<and>
   getSnippetsInFolder folder_index ''A'' =
     [\<lparr>entry_name = Some ''b'', entry_text = Some ''y'', entry_path = [''A'', ''B''],
       entry_category = ''A'', entry_subcategory = None, fullPath = ''A/B''\<rparr>] \<and>
   strict_prefix (''A'' @ ''/'') ''A/B''"
proof -
  have m: "(''A'' @ ''/B'', entry_at_A_B) \<in> set (own_entries folder_index)"
    by (simp add: folder_index_def)
  have r: "map (\<lambda>pe. \<lparr>entry_name = entry_name (snd pe), entry_text = entry_text (snd pe),
                 entry_path = entry_path (snd pe), entry_category = entry_category (snd pe),
                 entry_subcategory = entry_subcategory (snd pe), fullPath = fst pe\<rparr>)
       (filter (\<lambda>pe. prefix (''A'' @ ''/'') (fst pe)) (own_entries folder_index)) =
     [\<lparr>entry_name = Some ''b'', entry_text = Some ''y'', entry_path = [''A'', ''B''],
       entry_category = ''A'', entry_subcategory = None, fullPath = ''A/B''\<rparr>]"
    by (simp add: folder_index_def entry_at_A_B_def)
  have s: "strict_prefix (''A'' @ ''/'') ''A/B''" by (simp add: strict_prefix_def)
  from folder_entries [of folder_index "''A''"] m r s show ?thesis by simp
qed

text \<open>
  A valid document with an empty key below the folder \<open>A\<close>: its entry is stored under \<open>A/\<close> and
  is returned for the folder \<open>A\<close>, though \<open>A/\<close> is no strict prefix of \<open>A/\<close>, against claim C7 as
  stated.
\<close>

theorem empty_key_counterexample:
  "valid_children empty_key_document \<and>
   build empty_key_document =
     Inr \<lparr>own_entries =
            [(''A/'', \<lparr>entry_name = Some ''a'', entry_text = Some ''x'', entry_path = [''A'', ''''],
                      entry_category = ''A'', entry_subcategory = None\<rparr>),
             (''A/B'', \<lparr>entry_name = Some ''b'', entry_text = Some ''y'', entry_path = [''A'', ''B''],
                       entry_category = ''A'', entry_subcategory = None\<rparr>)],
          proto_entry = None\<rparr> \<and>
   getSnippetsInFolder
     \<lparr>own_entries =
        [(''A/'', \<lparr>entry_name = Some ''a'', entry_text = Some ''x'', entry_path = [''A'', ''''],
                  entry_category = ''A'', entry_subcategory = None\<rparr>),
         (''A/B'', \<lparr>entry_name = Some ''b'', entry_text = Some ''y'', entry_path = [''A'', ''B''],
                   entry_category = ''A'', entry_subcategory = None\<rparr>)],
      proto_entry = None\<rparr> ''A'' =
     [\<lparr>entry_name = Some ''a'', entry_text = Some ''x'', entry_path = [''A'', ''''],
       entry_category = ''A'', entry_subcategory = None, fullPath = ''A/''\<rparr>,
      \<lparr>entry_name = Some ''b'', entry_text = Some ''y'', entry_path = [''A'', ''B''],
       entry_category = ''A'', entry_subcategory = None, fullPath = ''A/B''\<rparr>] \<and>
   \<not> strict_prefix (''A'' @ ''/'') ''A/''"
proof -
  have "valid_children empty_key_document"
    by (simp add: empty_key_document_def folder_node_def snippet_node_def valid_key_def
        truthy_string_def)
  moreover have "build empty_key_document =
     Inr \<lparr>own_entries =
            [(''A/'', \<lparr>entry_name = Some ''a'', entry_text = Some ''x'', entry_path = [''A'', ''''],
                      entry_category = ''A'', entry_subcategory = None\<rparr>),
             (''A/B'', \<lparr>entry_name = Some ''b'', entry_text = Some ''y'', entry_path = [''A'', ''B''],
                       entry_category = ''A'', entry_subcategory = None\<rparr>)],
          proto_entry = None\<rparr>"
    by (simp add: build_def empty_key_document_def folder_node_def snippet_node_def assign_def
        put_own_def is_array_index_def empty_flat_def category_of_def subcategory_of_def)
  moreover have "getSnippetsInFolder
     \<lparr>own_entries =
        [(''A/'', \<lparr>entry_name = Some ''a'', entry_text = Some ''x'', entry_path = [''A'', ''''],
                  entry_category = ''A'', entry_subcategory = None\<rparr>),
         (''A/B'', \<lparr>entry_name = Some ''b'', entry_text = Some ''y'', entry_path = [''A'', ''B''],
                   entry_category = ''A'', entry_subcategory = None\<rparr>)],
      proto_entry = None\<rparr> ''A'' =
     [\<lparr>entry_name = Some ''a'', entry_text = Some ''x'', entry_path = [''A'', ''''],
       entry_category = ''A'', entry_subcategory = None, fullPath = ''A/''\<rparr>,
      \<lparr>entry_name = Some ''b'', entry_text = Some ''y'', entry_path = [''A'', ''B''],
       entry_category = ''A'', entry_subcategory = None, fullPath = ''A/B''\<rparr>]"
    by (simp add: getSnippetsInFolder_def startsWith_def with_path_def)
  moreover have "\<not> strict_prefix (''A'' @ ''/'') ''A/''"
    by simp
  ultimately show ?thesis by (intro conjI)
qed

section \<open>Joining slash-free segments is injective\<close>

lemma split_path_segment: "valid_key s \<Longrightarrow> split_path s = [s]"
  by (induction s) (auto simp: valid_key_def)

lemma split_path_slash:
  "valid_key s \<Longrightarrow> split_path (s @ CHR ''/'' # rest) = s # split_path rest"
  by (induction s) (auto simp: valid_key_def)

lemma split_join:
  "ps \<noteq> [] \<Longrightarrow> list_all valid_key ps \<Longrightarrow> split_path (join ps) = ps"
  by (induction ps rule: join.induct) (simp_all add: split_path_segment split_path_slash)

lemma join_inject:
  assumes "join ps = join qs" and "ps \<noteq> []" and "qs \<noteq> []"
    and "list_all valid_key ps" and "list_all valid_key qs"
  shows "ps = qs"
  using assms split_join by metis

section \<open>The entries of a valid document\<close>

lemma snippet_entries_cases:
  assumes "(k, e) \<in> set (snippet_entries ((key, Object ty nm tx ch) # rest) path)"
  shows "(ty = Some ''snippet'' \<and> k = join (path @ [key]) \<and> entry_path e = path @ [key]) \<or>
    (\<exists>children. ty \<noteq> Some ''snippet'' \<and> ty = Some ''folder'' \<and> ch = Some children \<and>
       (k, e) \<in> set (snippet_entries children (path @ [key]))) \<or>
    (k, e) \<in> set (snippet_entries rest path)"
proof (cases "ty = Some ''snippet''")
  case True
  with assms show ?thesis by auto
next
  case snippet: False
  show ?thesis
  proof (cases "ty = Some ''folder''")
    case False
    with snippet assms show ?thesis by simp
  next
    case True
    with snippet assms show ?thesis by (cases ch) auto
  qed
qed

lemma entry_key_path:
  "(k, e) \<in> set (snippet_entries kids path) \<Longrightarrow>
   k = join (entry_path e) \<and> (\<exists>key more. entry_path e = path @ key # more \<and> key \<in> fst ` set kids)"
proof (induction kids path rule: snippet_entries.induct)
  case (1 path)
  then show ?case by simp
next
  case (2 key rest path)
  then show ?case by auto
next
  case (3 key ty nm tx ch rest path)
  from snippet_entries_cases [OF "3.prems"] consider
      (here) "ty = Some ''snippet''" "k = join (path @ [key])" "entry_path e = path @ [key]"
    | (below) children where "ty \<noteq> Some ''snippet''" "ty = Some ''folder''" "ch = Some children"
        "(k, e) \<in> set (snippet_entries children (path @ [key]))"
    | (rest) "(k, e) \<in> set (snippet_entries rest path)"
    by blast
  then show ?case
  proof cases
    case here
    then show ?thesis by simp
  next
    case below
    from "3.IH"(1) [OF below] show ?thesis by auto
  next
    case rest
    from "3.IH"(2) [OF rest] show ?thesis by auto
  qed
qed

lemma entry_path_valid:
  "(k, e) \<in> set (snippet_entries kids path) \<Longrightarrow> valid_children kids \<Longrightarrow>
   list_all valid_key path \<Longrightarrow> list_all valid_key (entry_path e)"
proof (induction kids path rule: snippet_entries.induct)
  case (1 path)
  then show ?case by simp
next
  case (2 key rest path)
  then show ?case by simp
next
  case (3 key ty nm tx ch rest path)
  from snippet_entries_cases [OF "3.prems"(1)] consider
      (here) "ty = Some ''snippet''" "entry_path e = path @ [key]"
    | (below) children where "ty \<noteq> Some ''snippet''" "ty = Some ''folder''" "ch = Some children"
        "(k, e) \<in> set (snippet_entries children (path @ [key]))"
    | (rest) "(k, e) \<in> set (snippet_entries rest path)"
    by blast
  then show ?case
  proof cases
    case here
    with "3.prems" show ?thesis by simp
  next
    case below
    with "3.prems" have "valid_children children" "list_all valid_key (path @ [key])"
      by simp_all
    with "3.IH"(1) [OF below] show ?thesis by simp
  next
    case rest
    with "3.prems" "3.IH"(2) show ?thesis by simp
  qed
qed


lemma entry_path_under:
  assumes "(k, e) \<in> set (snippet_entries kids path)"
  shows "\<exists>key more. entry_path e = path @ key # more \<and> key \<in> fst ` set kids"
  using entry_key_path [OF assms] by blast

lemma distinct_entry_paths:
  "valid_children kids \<Longrightarrow> distinct (map (\<lambda>pe. entry_path (snd pe)) (snippet_entries kids path))"
proof (induction kids path rule: snippet_entries.induct)
  case (1 path)
  then show ?case by simp
next
  case (2 key rest path)
  then show ?case by simp
next
  case (3 key ty nm tx ch rest path)
  let ?f = "\<lambda>pe :: string \<times> index_entry. entry_path (snd pe)"
  define node where "node =
     (if ty = Some ''snippet'' then
        [(join (path @ [key]),
          \<lparr>entry_name = nm, entry_text = tx, entry_path = path @ [key],
           entry_category = category_of path, entry_subcategory = subcategory_of path\<rparr>)]
      else if ty = Some ''folder'' then
        (case ch of None \<Rightarrow> [] | Some children \<Rightarrow> snippet_entries children (path @ [key]))
      else [])"
  have split: "snippet_entries ((key, Object ty nm tx ch) # rest) path =
      node @ snippet_entries rest path"
    by (simp add: node_def)
  from "3.prems" have fresh: "key \<notin> fst ` set rest" and vrest: "valid_children rest"
    by simp_all
  have node: "distinct (map ?f node)"
  proof (cases "ty = Some ''snippet''")
    case True
    then show ?thesis by (simp add: node_def)
  next
    case False
    with "3.prems" obtain children where "ty = Some ''folder''" "ch = Some children"
      "valid_children children"
      by (auto split: option.splits)
    with False "3.IH"(1) show ?thesis by (simp add: node_def)
  qed
  have rest: "distinct (map ?f (snippet_entries rest path))"
    using "3.IH"(2) vrest by simp
  have under: "\<exists>more. ?f pe = path @ key # more" if "pe \<in> set node" for pe
  proof (cases "ty = Some ''snippet''")
    case True
    with that show ?thesis by (simp add: node_def)
  next
    case snippet: False
    show ?thesis
    proof (cases "ty = Some ''folder''")
      case False
      with snippet that show ?thesis by (simp add: node_def)
    next
      case folder: True
      show ?thesis
      proof (cases ch)
        case None
        with snippet folder that show ?thesis by (simp add: node_def)
      next
        case (Some children)
        with snippet folder that
        have "(fst pe, snd pe) \<in> set (snippet_entries children (path @ [key]))"
          by (simp add: node_def)
        from entry_path_under [OF this] show ?thesis by auto
      qed
    qed
  qed
  have apart: "?f a \<noteq> ?f b" if a: "a \<in> set node" and b: "b \<in> set (snippet_entries rest path)"
    for a b
  proof
    assume eq: "?f a = ?f b"
    from under [OF a] obtain more where m: "?f a = path @ key # more" ..
    from b have "(fst b, snd b) \<in> set (snippet_entries rest path)" by simp
    from entry_path_under [OF this] obtain key' more' where
      "?f b = path @ key' # more'" "key' \<in> fst ` set rest"
      by auto
    with m eq fresh show False by simp
  qed
  have "set (map ?f node) \<inter> set (map ?f (snippet_entries rest path)) = {}"
  proof (rule ccontr)
    assume "set (map ?f node) \<inter> set (map ?f (snippet_entries rest path)) \<noteq> {}"
    then obtain p where "p \<in> ?f ` set node" and "p \<in> ?f ` set (snippet_entries rest path)"
      unfolding set_map by blast
    then obtain a b where "a \<in> set node" "b \<in> set (snippet_entries rest path)" "?f a = ?f b"
      by (elim imageE) simp
    with apart show False by blast
  qed
  with node rest show ?case
    unfolding split by (simp only: map_append distinct_append simp_thms)
qed

lemma distinct_entry_keys:
  assumes "valid_children kids" and "list_all valid_key path"
  shows "distinct (map fst (snippet_entries kids path))"
proof -
  let ?es = "snippet_entries kids path"
  let ?f = "\<lambda>pe :: string \<times> index_entry. entry_path (snd pe)"
  have keys: "map fst ?es = map join (map ?f ?es)"
  proof -
    have "fst pe = join (?f pe)" if "pe \<in> set ?es" for pe
    proof -
      from that have "(fst pe, snd pe) \<in> set ?es" by simp
      from entry_key_path [OF this] show ?thesis by simp
    qed
    then show ?thesis by simp
  qed
  have "inj_on join (set (map ?f ?es))"
  proof (rule inj_onI)
    fix p q
    assume p: "p \<in> set (map ?f ?es)" and q: "q \<in> set (map ?f ?es)" and eq: "join p = join q"
    from p obtain a where a: "(fst a, snd a) \<in> set ?es" "p = entry_path (snd a)" by auto
    from q obtain b where b: "(fst b, snd b) \<in> set ?es" "q = entry_path (snd b)" by auto
    from entry_path_under [OF a(1)] a(2) have pn: "p \<noteq> []" by auto
    from entry_path_under [OF b(1)] b(2) have qn: "q \<noteq> []" by auto
    from entry_path_valid [OF a(1) assms] a(2) have pv: "list_all valid_key p" by simp
    from entry_path_valid [OF b(1) assms] b(2) have qv: "list_all valid_key q" by simp
    from eq pn qn pv qv show "p = q" by (rule join_inject)
  qed
  with distinct_entry_paths [OF assms(1), of path] have "distinct (map join (map ?f ?es))"
    by (simp only: distinct_map)
  then show ?thesis unfolding keys .
qed

lemma length_snippet_entries: "length (snippet_entries kids path) = count_snippets kids"
  by (induction kids path rule: snippet_entries.induct) (simp_all split: option.splits)


section \<open>The traversal stores every entry of a valid document\<close>

lemma assign_fresh:
  assumes "k \<noteq> ''__proto__''" and "k \<notin> fst ` set (own_entries result)"
  shows "mset (own_entries (assign result k e)) = add_mset (k, e) (mset (own_entries result))"
    and "proto_entry (assign result k e) = proto_entry result"
  using assms by (simp_all add: assign_def mset_put_own_fresh)

lemma flatten_mset:
  assumes "no_null kids"
    and "distinct (map fst (snippet_entries kids path))"
    and "fst ` set (snippet_entries kids path) \<inter> fst ` set (own_entries result) = {}"
    and "''__proto__'' \<notin> fst ` set (snippet_entries kids path)"
  shows "\<exists>result'. flattenSnippets kids path result = Inr result' \<and>
    mset (own_entries result') = mset (own_entries result) + mset (snippet_entries kids path) \<and>
    proto_entry result' = proto_entry result"
  using assms
proof (induction kids path result rule: flattenSnippets.induct)
  case (1 path result)
  then show ?case by simp
next
  case (2 key rest path result)
  then show ?case by simp
next
  case (3 key ty nm tx ch rest path result)
  let ?rest = "snippet_entries rest path"
  show ?case
  proof (cases "ty = Some ''snippet''")
    case True
    define k0 where "k0 = join (path @ [key])"
    define e0 where "e0 = \<lparr>entry_name = nm, entry_text = tx, entry_path = path @ [key],
      entry_category = category_of path, entry_subcategory = subcategory_of path\<rparr>"
    define r1 where "r1 = assign result k0 e0"
    from True have es: "snippet_entries ((key, Object ty nm tx ch) # rest) path = (k0, e0) # ?rest"
      by (simp add: k0_def e0_def)
    from "3.prems"(2) have d: "k0 \<notin> fst ` set ?rest" "distinct (map fst ?rest)"
      unfolding es by simp_all
    from "3.prems"(3) have f: "k0 \<notin> fst ` set (own_entries result)"
      "fst ` set ?rest \<inter> fst ` set (own_entries result) = {}"
      unfolding es by auto
    from "3.prems"(4) have p: "k0 \<noteq> ''__proto__''" "''__proto__'' \<notin> fst ` set ?rest"
      unfolding es by auto
    from "3.prems"(1) have n: "no_null rest" by simp
    from assign_fresh [OF p(1) f(1)]
    have own1: "mset (own_entries r1) = add_mset (k0, e0) (mset (own_entries result))"
      and proto1: "proto_entry r1 = proto_entry result"
      by (simp_all add: r1_def)
    from own1 have "set (own_entries r1) = insert (k0, e0) (set (own_entries result))"
      by (metis set_mset_add_mset_insert set_mset_mset)
    with d(1) f(2) have f1: "fst ` set ?rest \<inter> fst ` set (own_entries r1) = {}"
      by auto
    from "3.IH"(1) [OF refl True n d(2), folded k0_def e0_def r1_def, OF f1 p(2)]
    obtain r' where "flattenSnippets rest path r1 = Inr r'"
      "mset (own_entries r') = mset (own_entries r1) + mset ?rest"
      "proto_entry r' = proto_entry r1"
      by blast
    with own1 proto1 True show ?thesis
      unfolding es by (simp add: Let_def k0_def e0_def r1_def)
  next
    case snippet: False
    show ?thesis
    proof (cases "ty = Some ''folder''")
      case False
      with snippet have es: "snippet_entries ((key, Object ty nm tx ch) # rest) path = ?rest"
        by simp
      from "3.prems"(1) have n: "no_null rest" by simp
      from "3.IH"(5) [OF refl snippet False n] "3.prems"(2-4) snippet False show ?thesis
        unfolding es by (simp add: Let_def)
    next
      case folder: True
      show ?thesis
      proof (cases ch)
        case None
        with snippet folder have es: "snippet_entries ((key, Object ty nm tx ch) # rest) path = ?rest"
          by simp
        from "3.prems"(1) have n: "no_null rest" by simp
        from "3.IH"(2) [OF refl snippet folder None n] "3.prems"(2-4) snippet folder None
        show ?thesis
          unfolding es by (simp add: Let_def)
      next
        case (Some children)
        let ?kids = "snippet_entries children (path @ [key])"
        from snippet folder Some
        have es: "snippet_entries ((key, Object ty nm tx ch) # rest) path = ?kids @ ?rest"
          by simp
        from "3.prems"(1) snippet folder Some have n: "no_null children" "no_null rest"
          by simp_all
        from "3.prems"(2) have d: "distinct (map fst ?kids)" "distinct (map fst ?rest)"
          "fst ` set ?kids \<inter> fst ` set ?rest = {}"
          unfolding es by (simp_all add: image_Un)
        from "3.prems"(3) have f: "fst ` set ?kids \<inter> fst ` set (own_entries result) = {}"
          "fst ` set ?rest \<inter> fst ` set (own_entries result) = {}"
          unfolding es by (auto simp: image_Un)
        from "3.prems"(4) have p: "''__proto__'' \<notin> fst ` set ?kids"
          "''__proto__'' \<notin> fst ` set ?rest"
          unfolding es by (auto simp: image_Un)
        from "3.IH"(3) [OF refl snippet folder Some n(1) d(1) f(1) p(1)]
        obtain r1 where r1: "flattenSnippets children (path @ [key]) result = Inr r1"
          and own1: "mset (own_entries r1) = mset (own_entries result) + mset ?kids"
          and proto1: "proto_entry r1 = proto_entry result"
          by blast
        from own1 have "set (own_entries r1) = set (own_entries result) \<union> set ?kids"
          by (metis set_mset_mset set_mset_union)
        with d(3) f(2) have f1: "fst ` set ?rest \<inter> fst ` set (own_entries r1) = {}"
          by (auto simp: image_Un)
        from "3.IH"(4) [OF refl snippet folder Some r1 n(2) d(2) f1 p(2)]
        obtain r' where "flattenSnippets rest path r1 = Inr r'"
          "mset (own_entries r') = mset (own_entries r1) + mset ?rest"
          "proto_entry r' = proto_entry r1"
          by blast
        with r1 own1 proto1 snippet folder Some show ?thesis
          unfolding es by (simp add: Let_def)
      qed
    qed
  qed
qed

lemma proto_not_entry_key:
  assumes "valid_children doc" and "''__proto__'' \<notin> fst ` set doc"
  shows "''__proto__'' \<notin> fst ` set (snippet_entries doc [])"
proof
  assume "''__proto__'' \<in> fst ` set (snippet_entries doc [])"
  then obtain pe where pe: "pe \<in> set (snippet_entries doc [])" and k: "fst pe = ''__proto__''"
    by (elim imageE) simp
  define e where "e = snd pe"
  from pe have "(fst pe, e) \<in> set (snippet_entries doc [])"
    by (simp add: e_def)
  then have e: "(''__proto__'', e) \<in> set (snippet_entries doc [])"
    by (simp only: k)
  from entry_key_path [OF e] obtain key more where
    k: "''__proto__'' = join (entry_path e)" and p: "entry_path e = key # more"
    and key: "key \<in> fst ` set doc"
    by auto
  from entry_path_valid [OF e assms(1)] have v: "list_all valid_key (entry_path e)" by simp
  have "join [''__proto__''] = join (entry_path e)" using k by simp
  moreover have "[''__proto__''] \<noteq> []" by simp
  moreover from p have "entry_path e \<noteq> []" by simp
  moreover have "list_all valid_key [''__proto__'']" by (simp add: valid_key_def)
  ultimately have "[''__proto__''] = entry_path e" using v by (rule join_inject)
  with p key assms(2) show False by simp
qed

lemma flatten_valid_document:
  assumes "valid_children doc" and "''__proto__'' \<notin> fst ` set doc"
  shows "\<exists>flat. build doc = Inr flat \<and>
    mset (own_entries flat) = mset (snippet_entries doc []) \<and>
    length (own_entries flat) = count_snippets doc"
proof -
  have "distinct (map fst (snippet_entries doc []))"
    using assms(1) by (rule distinct_entry_keys) simp
  moreover have "fst ` set (snippet_entries doc []) \<inter> fst ` set (own_entries empty_flat) = {}"
    by (simp add: empty_flat_def)
  moreover note proto_not_entry_key [OF assms]
  ultimately obtain flat where flat: "flattenSnippets doc [] empty_flat = Inr flat"
    and own: "mset (own_entries flat) = mset (own_entries empty_flat) + mset (snippet_entries doc [])"
    using flatten_mset [OF valid_no_null [OF assms(1)], of "[]" empty_flat] by blast
  from own have m: "mset (own_entries flat) = mset (snippet_entries doc [])"
    by (simp add: empty_flat_def)
  then have "length (own_entries flat) = length (snippet_entries doc [])"
    by (rule mset_eq_length)
  with flat m show ?thesis
    by (simp add: build_def length_snippet_entries)
qed

section \<open>One entry per snippet\<close>

text \<open>
  Claim C5. For every valid document none of whose top-level keys is \<open>__proto__\<close>, the
  construction succeeds and the own properties of the index are, up to their order, the
  entries of the snippet nodes reachable from the root, one each, and as many as there are
  such nodes; folders add nothing. The valid document whose single snippet is stored at the
  top level under the key \<open>__proto__\<close> has one snippet node, but the index built from it has no
  entry at all: the assignment \<open>result['__proto__'] = ...\<close> sets the prototype of \<open>result\<close> and
  adds no property.
\<close>

theorem one_entry_per_snippet:
  "(valid_children doc \<and> ''__proto__'' \<notin> fst ` set doc \<longrightarrow>
      (\<exists>flat. build doc = Inr flat \<and>
         mset (own_entries flat) = mset (snippet_entries doc []) \<and>
         length (own_entries flat) = count_snippets doc)) \<and>
   valid_children proto_document \<and> count_snippets proto_document = 1 \<and>
   build proto_document =
     Inr \<lparr>own_entries = [],
          proto_entry = Some \<lparr>entry_name = Some ''Hello'', entry_text = Some ''x'',
            entry_path = [''__proto__''], entry_category = ''Root'', entry_subcategory = None\<rparr>\<rparr>"
proof -
  have "valid_children proto_document"
    by (simp add: proto_document_def snippet_node_def valid_key_def truthy_string_def)
  moreover have "count_snippets proto_document = 1"
    by (simp add: proto_document_def snippet_node_def)
  moreover have "build proto_document =
     Inr \<lparr>own_entries = [],
          proto_entry = Some \<lparr>entry_name = Some ''Hello'', entry_text = Some ''x'',
            entry_path = [''__proto__''], entry_category = ''Root'', entry_subcategory = None\<rparr>\<rparr>"
    by (simp add: proto_document_def snippet_node_def build_def assign_def empty_flat_def
        category_of_def subcategory_of_def)
  ultimately show ?thesis
    using flatten_valid_document [of doc] by blast
qed

theorem one_entry_per_snippet_witness:
  "valid_children hello_document \<and> ''__proto__'' \<notin> fst ` set hello_document \<and>
   build hello_document = Inr hello_index \<and>
   length (own_entries hello_index) = count_snippets hello_document"
proof -
  have k: "''__proto__'' \<notin> fst ` set hello_document"
    by (simp add: hello_document_def)
  from one_entry_per_snippet [of hello_document] valid_hello_document k
  obtain flat where "build hello_document = Inr flat"
    and "length (own_entries flat) = count_snippets hello_document"
    by blast
  with build_hello_document valid_hello_document k show ?thesis by simp
qed

end
